theory Spec2Isabelle
  imports Complex_Main "HOL-Library.Sublist"
begin

section \<open>Strings and the character tables of the Python runtime\<close>

text \<open>
  A Python \<open>str\<close> is a sequence of Unicode code points, and \<open>len\<close>, slicing, \<open>in\<close> and
  the regular expressions of the program all count code points. A string is therefore a
  list of code points (natural numbers); \<open>u\<close> turns an ASCII literal into one.
\<close>

type_synonym ustr = "nat list"

definition u :: "string \<Rightarrow> ustr" where
  "u s = map of_char s"

text \<open>
  \<open>str.isdigit\<close>, \<open>int\<close>, \<open>str.lower\<close> and the class \<open>\W\<close> of \<open>re\<close> read the Unicode
  character database of the interpreter. The program does not define these tables, so the
  model takes them as a parameter:
  \<^item> \<open>isdigit_cp c\<close>: \<open>str.isdigit\<close> holds of the one-character string \<open>c\<close>;
  \<^item> \<open>decimal_cp c\<close>: the value of \<open>c\<close> as a decimal digit, which is what \<open>int\<close> and the
    class \<open>\d\<close> accept (a superscript two is a digit for \<open>isdigit\<close>, and \<open>int\<close> rejects it);
  \<^item> \<open>lower_str s\<close>: \<open>s.lower()\<close>;
  \<^item> \<open>isword_cp c\<close>: \<open>c\<close> is in the class \<open>\w\<close>;
  \<^item> \<open>repr_str s\<close>: \<open>repr(s)\<close>, which quotes \<open>s\<close> and escapes its unprintable characters.
\<close>

record unicode_db =
  isdigit_cp :: "nat \<Rightarrow> bool"
  decimal_cp :: "nat \<Rightarrow> nat option"
  lower_str :: "ustr \<Rightarrow> ustr"
  isword_cp :: "nat \<Rightarrow> bool"
  repr_str :: "ustr \<Rightarrow> ustr"

text \<open>
  The whitespace that \<open>str.strip()\<close> removes is a fixed, short table of the interpreter
  (the code points with \<open>str.isspace\<close>).
\<close>

definition isspace_cp :: "nat \<Rightarrow> bool" where
  "isspace_cp c =
     ((9 \<le> c \<and> c \<le> 13) \<or> (28 \<le> c \<and> c \<le> 32) \<or> c = 133 \<or> c = 160 \<or> c = 5760 \<or>
      (8192 \<le> c \<and> c \<le> 8202) \<or> c = 8232 \<or> c = 8233 \<or> c = 8239 \<or> c = 8287 \<or> c = 12288)"

text \<open>
  What every table of the interpreter satisfies on the ASCII range, and the only facts about
  the tables that the results below rely on: the ASCII digits are digits with their decimal
  values, a decimal character is a digit, a decimal value is below ten, no other ASCII
  character is a digit, and no whitespace character is a digit.
\<close>

definition ascii_digit :: "nat \<Rightarrow> bool" where
  "ascii_digit c = (48 \<le> c \<and> c \<le> 57)"

definition unicode_ok :: "unicode_db \<Rightarrow> bool" where
  "unicode_ok U =
     ((\<forall>c. ascii_digit c \<longrightarrow> decimal_cp U c = Some (c - 48)) \<and>
      (\<forall>c d. decimal_cp U c = Some d \<longrightarrow> isdigit_cp U c \<and> d < 10) \<and>
      (\<forall>c. c < 128 \<and> \<not> ascii_digit c \<longrightarrow> \<not> isdigit_cp U c) \<and>
      (\<forall>c. isspace_cp c \<longrightarrow> \<not> isdigit_cp U c))"

text \<open>The tables restricted to ASCII: the instance used to evaluate the program on ASCII input.\<close>

definition ascii_lower_cp :: "nat \<Rightarrow> nat" where
  "ascii_lower_cp c = (if 65 \<le> c \<and> c \<le> 90 then c + 32 else c)"

definition ascii_word_cp :: "nat \<Rightarrow> bool" where
  "ascii_word_cp c =
     (ascii_digit c \<or> (65 \<le> c \<and> c \<le> 90) \<or> (97 \<le> c \<and> c \<le> 122) \<or> c = 95)"

definition hex_digit :: "nat \<Rightarrow> nat" where
  "hex_digit n = (if n < 10 then 48 + n else 87 + n)"

definition ascii_escape :: "nat \<Rightarrow> nat \<Rightarrow> ustr" where
  "ascii_escape quote c =
     (if c = 92 \<or> c = quote then [92, c]
      else if c = 9 then [92, 116]
      else if c = 10 then [92, 110]
      else if c = 13 then [92, 114]
      else if c < 32 \<or> c = 127 then [92, 120, hex_digit (c div 16), hex_digit (c mod 16)]
      else [c])"

definition ascii_repr :: "ustr \<Rightarrow> ustr" where
  "ascii_repr s =
     (let quote = (if 39 \<in> set s \<and> 34 \<notin> set s then 34 else 39)
      in quote # concat (map (ascii_escape quote) s) @ [quote])"

definition ascii_db :: unicode_db where
  "ascii_db = \<lparr> isdigit_cp = ascii_digit,
                decimal_cp = (\<lambda>c. if ascii_digit c then Some (c - 48) else None),
                lower_str = map ascii_lower_cp,
                isword_cp = ascii_word_cp,
                repr_str = ascii_repr \<rparr>"

definition strip :: "ustr \<Rightarrow> ustr" where
  "strip s = rev (dropWhile isspace_cp (rev (dropWhile isspace_cp s)))"

definition py_isdigit :: "unicode_db \<Rightarrow> ustr \<Rightarrow> bool" where
  "py_isdigit U s = (s \<noteq> [] \<and> list_all (isdigit_cp U) s)"

text \<open>Python's slice \<open>s[i:j]\<close> for \<open>0 \<le> i \<le> j\<close>.\<close>

definition slice :: "nat \<Rightarrow> nat \<Rightarrow> 'a list \<Rightarrow> 'a list" where
  "slice i j s = take (j - i) (drop i s)"

text \<open>\<open>kw in s\<close> on strings: \<open>kw\<close> occurs in \<open>s\<close> as a contiguous run.\<close>

fun contains :: "ustr \<Rightarrow> ustr \<Rightarrow> bool" where
  "contains [] kw = (kw = [])"
| "contains (c # cs) kw = (prefix kw (c # cs) \<or> contains cs kw)"

datatype py_error =
    ValueError
  | KeyError ustr
  | IndexError
  | AttributeError

text \<open>
  \<open>int(s)\<close> where \<open>s\<close> is a non-empty slice of a string for which \<open>isdigit\<close> holds: such a
  string has no sign, blank or underscore, so \<open>int\<close> accepts it exactly when every
  character is a decimal digit, and raises \<open>ValueError\<close> otherwise.
\<close>

fun digits_value :: "unicode_db \<Rightarrow> nat \<Rightarrow> ustr \<Rightarrow> nat option" where
  "digits_value U acc [] = Some acc"
| "digits_value U acc (c # cs) =
     (case decimal_cp U c of None \<Rightarrow> None | Some d \<Rightarrow> digits_value U (10 * acc + d) cs)"

definition py_int :: "unicode_db \<Rightarrow> ustr \<Rightarrow> py_error + nat" where
  "py_int U s =
     (if s = [] then Inl ValueError
      else case digits_value U 0 s of None \<Rightarrow> Inl ValueError | Some n \<Rightarrow> Inr n)"

section \<open>The regular expressions of the parser\<close>

text \<open>
  The three patterns of the program are \<open>\[.*?\]\<close>, \<open>\(.*?\)\<close> and \<open>\{.*?\}\<close>: an opening
  character, the shortest run of characters other than a line feed (\<open>.\<close> does not match
  \<open>\n\<close>), and the closing character. \<open>take_span cl s\<close> matches \<open>.*?\<close> followed by \<open>cl\<close> at
  the start of \<open>s\<close> and returns the run and the text after the match.
\<close>

fun take_span :: "nat \<Rightarrow> ustr \<Rightarrow> (ustr \<times> ustr) option" where
  "take_span cl [] = None"
| "take_span cl (c # cs) =
     (if c = cl then Some ([], cs)
      else if c = 10 then None
      else (case take_span cl cs of
              None \<Rightarrow> None
            | Some (inner, rest) \<Rightarrow> Some (c # inner, rest)))"

lemma take_span_length:
  "take_span cl s = Some (inner, rest) \<Longrightarrow> length rest < length s"
  by (induction s arbitrary: inner) (auto split: if_splits option.splits)

text \<open>\<open>re.findall\<close> with one group: the runs of all matches, scanning from left to right.\<close>

function findall_span :: "nat \<Rightarrow> nat \<Rightarrow> ustr \<Rightarrow> ustr list" where
  "findall_span op cl [] = []"
| "findall_span op cl (c # cs) =
     (if c = op then
        (case take_span cl cs of
           Some (inner, rest) \<Rightarrow> inner # findall_span op cl rest
         | None \<Rightarrow> findall_span op cl cs)
      else findall_span op cl cs)"
  by pat_completeness auto
termination
  by (relation "measure (\<lambda>(op, cl, s). length s)")
     (auto dest: take_span_length)

text \<open>\<open>re.sub\<close> with the empty replacement: every match is deleted, the rest is kept.\<close>

function sub_span :: "nat \<Rightarrow> nat \<Rightarrow> ustr \<Rightarrow> ustr" where
  "sub_span op cl [] = []"
| "sub_span op cl (c # cs) =
     (if c = op then
        (case take_span cl cs of
           Some (inner, rest) \<Rightarrow> sub_span op cl rest
         | None \<Rightarrow> c # sub_span op cl cs)
      else c # sub_span op cl cs)"
  by pat_completeness auto
termination
  by (relation "measure (\<lambda>(op, cl, s). length s)")
     (auto dest: take_span_length)

section \<open>The folder-name parser\<close>

subsection \<open>\<open>parse_bracket_info\<close>\<close>

text \<open>
  The body of the loop over the bracketed segments. The state is the pair
  \<open>(expected_date, expected_producer)\<close>. In the command-line program a \<open>ValueError\<close> of
  \<open>int\<close> leaves the function; the graphical program catches it and goes on.
\<close>

definition valid_mmdd :: "nat \<Rightarrow> nat \<Rightarrow> bool" where
  "valid_mmdd mm dd = (1 \<le> mm \<and> mm \<le> 12 \<and> 1 \<le> dd \<and> dd \<le> 31)"

definition producer_branch :: "unicode_db \<Rightarrow> ustr \<times> ustr \<Rightarrow> ustr \<Rightarrow> ustr \<times> ustr" where
  "producer_branch U st segment =
     (if length segment \<ge> 3 then
        (if \<not> (py_isdigit U segment \<and> length segment > 6) then
           (if snd st = [] then (fst st, segment) else st)
         else st)
      else st)"

definition bracket_step_cli ::
  "unicode_db \<Rightarrow> ustr \<times> ustr \<Rightarrow> ustr \<Rightarrow> py_error + (ustr \<times> ustr)" where
  "bracket_step_cli U st seg =
     (let segment = strip seg in
      if py_isdigit U segment \<and> length segment = 6 then
        (case py_int U (slice 2 4 segment) of
           Inl e \<Rightarrow> Inl e
         | Inr mm \<Rightarrow>
            (case py_int U (slice 4 6 segment) of
               Inl e \<Rightarrow> Inl e
             | Inr dd \<Rightarrow>
                 Inr (if valid_mmdd mm dd then (segment, snd st) else st)))
      else Inr (producer_branch U st segment))"

fun bracket_loop_cli ::
  "unicode_db \<Rightarrow> ustr \<times> ustr \<Rightarrow> ustr list \<Rightarrow> py_error + (ustr \<times> ustr)" where
  "bracket_loop_cli U st [] = Inr st"
| "bracket_loop_cli U st (seg # segs) =
     (case bracket_step_cli U st seg of
        Inl e \<Rightarrow> Inl e
      | Inr st' \<Rightarrow> bracket_loop_cli U st' segs)"

definition parse_bracket_info_cli :: "unicode_db \<Rightarrow> ustr \<Rightarrow> py_error + (ustr \<times> ustr)" where
  "parse_bracket_info_cli U folder_name =
     bracket_loop_cli U ([], []) (findall_span 91 93 folder_name)"

definition bracket_step_gui :: "unicode_db \<Rightarrow> ustr \<times> ustr \<Rightarrow> ustr \<Rightarrow> ustr \<times> ustr" where
  "bracket_step_gui U st seg =
     (let segment = strip seg in
      if py_isdigit U segment \<and> length segment = 6 then
        (case py_int U (slice 2 4 segment) of
           Inl e \<Rightarrow> st
         | Inr mm \<Rightarrow>
            (case py_int U (slice 4 6 segment) of
               Inl e \<Rightarrow> st
             | Inr dd \<Rightarrow> (if valid_mmdd mm dd then (segment, snd st) else st)))
      else producer_branch U st segment)"

definition parse_bracket_info_gui :: "unicode_db \<Rightarrow> ustr \<Rightarrow> ustr \<times> ustr" where
  "parse_bracket_info_gui U folder_name =
     foldl (bracket_step_gui U) ([], []) (findall_span 91 93 folder_name)"

subsection \<open>\<open>parse_folder_name\<close>\<close>

text \<open>
  Both programs return the dictionary \<open>{"title": ..., "release": ""}\<close>; the model returns
  its \<open>title\<close> entry. \<open>before_plus\<close> is \<open>cleaned.split("+", 1)[0]\<close>.
\<close>

definition cleaned_name :: "ustr \<Rightarrow> ustr" where
  "cleaned_name folder_name =
     strip (sub_span 123 125 (sub_span 40 41 (sub_span 91 93 folder_name)))"

definition before_plus :: "ustr \<Rightarrow> ustr" where
  "before_plus s = takeWhile (\<lambda>c. c \<noteq> 43) s"

definition parse_folder_name_cli :: "ustr \<Rightarrow> ustr" where
  "parse_folder_name_cli folder_name =
     (let cleaned = cleaned_name folder_name in
      if 43 \<in> set cleaned then strip (before_plus cleaned) else cleaned)"

definition parse_folder_name_gui :: "ustr \<Rightarrow> ustr" where
  "parse_folder_name_gui folder_name = cleaned_name folder_name"

subsection \<open>Vocabulary for the properties of \<open>parse_bracket_info\<close>\<close>

text \<open>
  \<open>accepted_date U segment\<close>: the stripped segment passes the date test of the loop (six
  digits whose month and day components are in range). \<open>decimal_digits U s\<close>: every
  character of \<open>s\<close> that \<open>isdigit\<close> accepts is a decimal digit, so that \<open>int\<close> cannot fail
  on it.
\<close>

definition accepted_date :: "unicode_db \<Rightarrow> ustr \<Rightarrow> bool" where
  "accepted_date U segment =
     (py_isdigit U segment \<and> length segment = 6 \<and>
      (case py_int U (slice 2 4 segment) of
         Inl e \<Rightarrow> False
       | Inr mm \<Rightarrow>
          (case py_int U (slice 4 6 segment) of
             Inl e \<Rightarrow> False
           | Inr dd \<Rightarrow> valid_mmdd mm dd)))"

definition last_or_empty :: "ustr list \<Rightarrow> ustr" where
  "last_or_empty xs = (if xs = [] then [] else last xs)"

definition decimal_digits :: "unicode_db \<Rightarrow> ustr \<Rightarrow> bool" where
  "decimal_digits U s = (\<forall>c\<in>set s. isdigit_cp U c \<longrightarrow> decimal_cp U c \<noteq> None)"

text \<open>
  \<open>month_day_ok U seg\<close>: the month component \<open>seg[2:4]\<close> and the day component \<open>seg[4:6]\<close>
  are numbers, the month in 1..12 and the day in 1..31.
\<close>

definition month_day_ok :: "unicode_db \<Rightarrow> ustr \<Rightarrow> bool" where
  "month_day_ok U seg =
     (\<exists>mm dd. py_int U (slice 2 4 seg) = Inr mm \<and> py_int U (slice 4 6 seg) = Inr dd \<and>
              1 \<le> mm \<and> mm \<le> 12 \<and> 1 \<le> dd \<and> dd \<le> 31)"

section \<open>Catalog records\<close>

text \<open>
  The catalog answers with JSON objects, which the program reads with \<open>dict.get\<close>. The model
  fixes the shape the program expects: a field is \<open>None\<close> when its key is missing (or holds
  JSON \<open>null\<close>), and holds a string, a number or a list otherwise.
\<close>

record producer =
  prod_name :: "ustr option"
  prod_developer :: bool

record release =
  rel_title :: "ustr option"
  rel_released :: "ustr option"
  rel_producers :: "producer list"
  rel_official :: bool



section \<open>The content flag detector\<close>





definition fandisc_keywords :: "ustr list" where
  "fandisc_keywords =
     [u ''fandisc'', u ''fan disc'', [12501, 12449, 12531, 12487, 12451, 12473, 12463]]"

text \<open>\<open>any(kw in s.lower() for kw in keywords)\<close>\<close>

definition any_keyword :: "unicode_db \<Rightarrow> ustr list \<Rightarrow> ustr \<Rightarrow> bool" where
  "any_keyword U keywords s = list_ex (contains (lower_str U s)) keywords"

text \<open>
  The file system is a function from a path to the result of \<open>os.listdir\<close>: the names in
  the directory, or \<open>None\<close> when the call raises (a missing or unreadable path). The
  detectors catch that exception and go on as if the directory were empty.
\<close>

type_synonym filesystem = "ustr \<Rightarrow> ustr list option"

definition release_title_hit :: "unicode_db \<Rightarrow> ustr list \<Rightarrow> release option \<Rightarrow> bool" where
  "release_title_hit U keywords release_info =
     (case release_info of
        None \<Rightarrow> False
      | Some r \<Rightarrow> (case rel_title r of None \<Rightarrow> False | Some t \<Rightarrow> any_keyword U keywords t))"

definition files_hit :: "unicode_db \<Rightarrow> ustr list \<Rightarrow> filesystem \<Rightarrow> ustr \<Rightarrow> bool" where
  "files_hit U keywords fs folder_path =
     (case fs folder_path of
        None \<Rightarrow> False
      | Some names \<Rightarrow> list_ex (any_keyword U keywords) names)"


definition detect_fandisc_api :: "unicode_db \<Rightarrow> release option \<Rightarrow> ustr \<Rightarrow> bool" where
  "detect_fandisc_api U release_info folder_name =
     (if release_title_hit U fandisc_keywords release_info then True
      else if any_keyword U fandisc_keywords folder_name then True
      else False)"

definition detect_fandisc_physical :: "unicode_db \<Rightarrow> filesystem \<Rightarrow> ustr \<Rightarrow> bool" where
  "detect_fandisc_physical U fs folder_path = files_hit U fandisc_keywords fs folder_path"




section \<open>The name synthesizer\<close>

subsection \<open>Numbers and dates as text\<close>














subsection \<open>\<open>str.format\<close> with keyword arguments\<close>

















subsection \<open>\<open>suggest_new_folder_name\<close>\<close>














section \<open>Floating-point arithmetic\<close>

text \<open>
  The scores are Python floats, that is IEEE 754 doubles: every operation returns the exact
  result rounded to the nearest number with a 53-bit mantissa, ties going to the even
  mantissa. A float is modelled as the rational number it denotes, and rounding is written
  out. The exponent is not bounded; the scores are zero or lie between \<open>2 / n\<close> and \<open>3\<close>,
  where \<open>n\<close> is the length of two strings, far from overflow and underflow.

  \<open>round_half_even z\<close> is the integer nearest to \<open>z\<close>, a tie going to the even one, and
  \<open>expo x\<close> is the exponent of \<open>x > 0\<close>: \<open>2 ^ expo x \<le> x < 2 ^ (expo x + 1)\<close>.
\<close>

definition round_half_even :: "rat \<Rightarrow> int" where
  "round_half_even z =
     (let f = \<lfloor>z\<rfloor>; r = z - of_int f
      in if r < 1 / 2 then f else if 1 / 2 < r then f + 1 else if even f then f else f + 1)"

function expo :: "rat \<Rightarrow> int" where
  "expo x = (if x \<le> 0 then 0
             else if x < 1 then expo (2 * x) - 1
             else if 2 \<le> x then expo (x / 2) + 1
             else 0)"
  by pat_completeness auto
termination
proof (relation "measure (\<lambda>x. if x < 1 then nat \<lceil>1 / x\<rceil> else nat \<lfloor>x\<rfloor>)")
  show "wf (measure (\<lambda>x::rat. if x < 1 then nat \<lceil>1 / x\<rceil> else nat \<lfloor>x\<rfloor>))" by simp
next
  fix x :: rat
  assume "\<not> x \<le> 0" "x < 1"
  then have x: "0 < x" "x < 1" by simp_all
  show "(2 * x, x) \<in> measure (\<lambda>x. if x < 1 then nat \<lceil>1 / x\<rceil> else nat \<lfloor>x\<rfloor>)"
  proof (cases "2 * x < 1")
    case True
    have "2 < 1 / x" using x True by (simp add: field_simps)
    then have "1 / (2 * x) \<le> 1 / x - 1" by (simp add: field_simps)
    then have "\<lceil>1 / (2 * x)\<rceil> \<le> \<lceil>1 / x - 1\<rceil>" by (rule ceiling_mono)
    also have "\<dots> = \<lceil>1 / x\<rceil> - 1" by simp
    finally have "\<lceil>1 / (2 * x)\<rceil> < \<lceil>1 / x\<rceil>" by simp
    moreover have "0 < \<lceil>1 / x\<rceil>" using x by (simp add: ceiling_less_iff)
    ultimately show ?thesis using True x by simp
  next
    case False
    then have "1 \<le> 2 * x" "2 * x < 2" using x by simp_all
    then have f: "\<lfloor>2 * x\<rfloor> = 1" by (simp add: floor_eq_iff)
    have "1 < 1 / x" using x by (simp add: field_simps)
    then have "1 < \<lceil>1 / x\<rceil>" by (simp add: less_ceiling_iff)
    with False x f show ?thesis by simp
  qed
next
  fix x :: rat
  assume "\<not> x \<le> 0" "\<not> x < 1" "2 \<le> x"
  then have "x / 2 \<le> x - 1" by (simp add: field_simps)
  then have "\<lfloor>x / 2\<rfloor> \<le> \<lfloor>x - 1\<rfloor>" by (rule floor_mono)
  also have "\<dots> = \<lfloor>x\<rfloor> - 1" by simp
  finally have "\<lfloor>x / 2\<rfloor> < \<lfloor>x\<rfloor>" by simp
  moreover have "0 < \<lfloor>x\<rfloor>" using \<open>2 \<le> x\<close> by (simp add: less_floor_iff)
  ultimately show "(x / 2, x) \<in> measure (\<lambda>x. if x < 1 then nat \<lceil>1 / x\<rceil> else nat \<lfloor>x\<rfloor>)"
    using \<open>2 \<le> x\<close> by simp
qed

declare expo.simps [simp del]

text \<open>
  \<open>fl x\<close> is the double nearest to \<open>x\<close>: \<open>x\<close> is scaled by a power of two to a mantissa
  in \<open>[2^52, 2^53)\<close>, the mantissa is rounded to an integer with ties to even, and the
  scaling is undone.
\<close>

definition fl :: "rat \<Rightarrow> rat" where
  "fl x = (if x = 0 then 0
           else (let e = expo \<bar>x\<bar> - 52
                 in sgn x * of_int (round_half_even (\<bar>x\<bar> / 2 powi e)) * 2 powi e))"

text \<open>The operations \<open>+\<close>, \<open>*\<close> and \<open>/\<close> on floats: the exact result, rounded.\<close>

definition fadd :: "rat \<Rightarrow> rat \<Rightarrow> rat" where
  "fadd x y = fl (x + y)"

definition fmul :: "rat \<Rightarrow> rat \<Rightarrow> rat" where
  "fmul x y = fl (x * y)"

definition fdiv :: "rat \<Rightarrow> rat \<Rightarrow> rat" where
  "fdiv x y = fl (x / y)"

text \<open>The unit in the last place of the binade of \<open>x\<close>.\<close>

definition ulp :: "rat \<Rightarrow> rat" where
  "ulp x = 2 powi (expo x - 52)"

section \<open>The similarity ratio\<close>

text \<open>
  \<open>difflib.SequenceMatcher(None, a, b).ratio()\<close>. Without a junk test no element is junk;
  with \<open>autojunk\<close>, an element that fills more than one percent (plus one) of a second
  sequence of 200 elements or more is \<open>popular\<close> and is left out of the index \<open>b2j\<close> of the
  positions of each element in \<open>b\<close>. A match is a triple \<open>(i, j, k)\<close>: \<open>a[i:i+k] == b[j:j+k]\<close>.
\<close>

type_synonym match = "nat \<times> nat \<times> nat"

definition popular :: "ustr \<Rightarrow> nat \<Rightarrow> bool" where
  "popular b x = (200 \<le> length b \<and> length b div 100 + 1 < count_list b x)"

text \<open>
  \<open>b2j b blo bhi x\<close> are the positions that the inner loop of \<open>find_longest_match\<close> visits
  for the element \<open>x\<close>: the positions of \<open>x\<close> in \<open>b\<close>, in increasing order, that are not
  below \<open>blo\<close> (\<open>continue\<close>) and below \<open>bhi\<close> (\<open>break\<close>).
\<close>

definition b2j :: "ustr \<Rightarrow> nat \<Rightarrow> nat \<Rightarrow> nat \<Rightarrow> nat list" where
  "b2j b blo bhi x =
     (if popular b x then []
      else filter (\<lambda>j. b ! j = x) [blo..<min bhi (length b)])"

text \<open>
  The inner loop for the row \<open>i\<close>: \<open>j2len\<close> gives, for the previous row, the length of the
  longest match ending at each position (0 where the dictionary has no entry), \<open>newj2len\<close>
  the same for this row; the best match so far is kept.
\<close>

fun match_row ::
  "(nat \<Rightarrow> nat) \<Rightarrow> nat \<Rightarrow> nat list \<Rightarrow> (nat \<Rightarrow> nat) \<times> match \<Rightarrow> (nat \<Rightarrow> nat) \<times> match" where
  "match_row j2len i [] st = st"
| "match_row j2len i (j # js) (newj2len, (besti, bestj, bestsize)) =
     (let k = (if j = 0 then 0 else j2len (j - 1)) + 1
      in match_row j2len i js
           (newj2len(j := k),
            if bestsize < k then (i + 1 - k, j + 1 - k, k) else (besti, bestj, bestsize)))"

fun match_rows ::
  "ustr \<Rightarrow> ustr \<Rightarrow> nat \<Rightarrow> nat \<Rightarrow> nat list \<Rightarrow> (nat \<Rightarrow> nat) \<times> match \<Rightarrow> (nat \<Rightarrow> nat) \<times> match" where
  "match_rows a b blo bhi [] st = st"
| "match_rows a b blo bhi (i # is) (j2len, best) =
     match_rows a b blo bhi is (match_row j2len i (b2j b blo bhi (a ! i)) (\<lambda>j. 0, best))"

text \<open>
  The best match is then extended on both sides while the elements agree. (The two further
  loops of \<open>find_longest_match\<close> extend over junk elements only, and there are none.)
\<close>

function extend_left :: "ustr \<Rightarrow> ustr \<Rightarrow> nat \<Rightarrow> nat \<Rightarrow> match \<Rightarrow> match" where
  "extend_left a b alo blo (besti, bestj, bestsize) =
     (if alo < besti \<and> blo < bestj \<and> a ! (besti - 1) = b ! (bestj - 1)
      then extend_left a b alo blo (besti - 1, bestj - 1, bestsize + 1)
      else (besti, bestj, bestsize))"
  by pat_completeness auto
termination
  by (relation "measure (\<lambda>(a, b, alo, blo, besti, bestj, bestsize). besti)") auto

function extend_right :: "ustr \<Rightarrow> ustr \<Rightarrow> nat \<Rightarrow> nat \<Rightarrow> match \<Rightarrow> match" where
  "extend_right a b ahi bhi (besti, bestj, bestsize) =
     (if besti + bestsize < ahi \<and> bestj + bestsize < bhi
         \<and> a ! (besti + bestsize) = b ! (bestj + bestsize)
      then extend_right a b ahi bhi (besti, bestj, bestsize + 1)
      else (besti, bestj, bestsize))"
  by pat_completeness auto
termination
  by (relation "measure (\<lambda>(a, b, ahi, bhi, besti, bestj, bestsize). ahi - (besti + bestsize))")
     auto

declare extend_left.simps [simp del] extend_right.simps [simp del]

definition find_longest_match :: "ustr \<Rightarrow> ustr \<Rightarrow> nat \<Rightarrow> nat \<Rightarrow> nat \<Rightarrow> nat \<Rightarrow> match" where
  "find_longest_match a b alo ahi blo bhi =
     extend_right a b ahi bhi
       (extend_left a b alo blo
          (snd (match_rows a b blo bhi [alo..<ahi] (\<lambda>j. 0, (alo, blo, 0)))))"

text \<open>
  Where a match returned for the region \<open>a[alo:ahi]\<close>, \<open>b[blo:bhi]\<close> lies: an empty match is
  \<open>(alo, blo, 0)\<close>, a match that is not empty lies inside the region. \<open>len_ok\<close> is the
  matching fact about the table of a row. Both are needed to see that
  \<open>get_matching_blocks\<close> terminates.
\<close>

definition block_ok :: "nat \<Rightarrow> nat \<Rightarrow> nat \<Rightarrow> nat \<Rightarrow> match \<Rightarrow> bool" where
  "block_ok alo ahi blo bhi m =
     (case m of (i, j, k) \<Rightarrow>
        if k = 0 then i = alo \<and> j = blo
        else alo \<le> i \<and> i + k \<le> ahi \<and> blo \<le> j \<and> j + k \<le> bhi)"

definition len_ok :: "nat \<Rightarrow> nat \<Rightarrow> nat \<Rightarrow> nat \<Rightarrow> (nat \<Rightarrow> nat) \<Rightarrow> bool" where
  "len_ok alo blo bhi n f =
     (\<forall>j. f j \<le> n - alo \<and> (f j \<noteq> 0 \<longrightarrow> blo \<le> j \<and> j < bhi \<and> f j \<le> j + 1 - blo))"

lemma block_ok_mono: "block_ok alo n blo bhi m \<Longrightarrow> n \<le> n' \<Longrightarrow> block_ok alo n' blo bhi m"
  by (auto simp: block_ok_def split: prod.splits if_splits)

lemma match_row_inv:
  assumes "len_ok alo blo bhi i j2len" "alo \<le> i"
    and "\<forall>j\<in>set js. blo \<le> j \<and> j < bhi"
    and "len_ok alo blo bhi (Suc i) newj2len" "block_ok alo (Suc i) blo bhi best"
  shows "len_ok alo blo bhi (Suc i) (fst (match_row j2len i js (newj2len, best))) \<and>
         block_ok alo (Suc i) blo bhi (snd (match_row j2len i js (newj2len, best)))"
  using assms(3-5)
proof (induction js arbitrary: newj2len best)
  case Nil
  then show ?case by simp
next
  case (Cons j js)
  obtain besti bestj bestsize where best: "best = (besti, bestj, bestsize)" by (cases best)
  define k where "k = (if j = 0 then 0 else j2len (j - 1)) + 1"
  have j: "blo \<le> j" "j < bhi" using Cons.prems(1) by simp_all
  have prev_i: "(if j = 0 then 0 else j2len (j - 1)) \<le> i - alo"
    using assms(1) by (auto simp: len_ok_def)
  have prev_j: "(if j = 0 then 0 else j2len (j - 1)) \<le> j - blo"
  proof (cases "j = 0 \<or> j2len (j - 1) = 0")
    case True
    then show ?thesis by auto
  next
    case False
    then have nz: "j \<noteq> 0" "j2len (j - 1) \<noteq> 0" by simp_all
    have "j2len (j - 1) \<noteq> 0 \<longrightarrow>
            blo \<le> j - 1 \<and> j - 1 < bhi \<and> j2len (j - 1) \<le> (j - 1) + 1 - blo"
      using assms(1) unfolding len_ok_def by blast
    with nz have "j2len (j - 1) \<le> (j - 1) + 1 - blo" by blast
    with nz show ?thesis by simp
  qed
  have k1: "0 < k" "k \<le> Suc i - alo" "k \<le> j + 1 - blo"
    using prev_i prev_j assms(2) j unfolding k_def by auto
  have new: "len_ok alo blo bhi (Suc i) (newj2len(j := k))"
    using Cons.prems(2) k1 j by (auto simp: len_ok_def)
  have b': "block_ok alo (Suc i) blo bhi
              (if bestsize < k then (i + 1 - k, j + 1 - k, k) else (besti, bestj, bestsize))"
    using Cons.prems(3) k1 j assms(2) unfolding best by (auto simp: block_ok_def)
  have step: "match_row j2len i (j # js) (newj2len, best) =
        match_row j2len i js (newj2len(j := k),
           if bestsize < k then (i + 1 - k, j + 1 - k, k) else (besti, bestj, bestsize))"
    unfolding best k_def by (simp only: match_row.simps Let_def)
  have rest: "\<forall>j\<in>set js. blo \<le> j \<and> j < bhi" using Cons.prems(1) by simp
  show ?case unfolding step by (rule Cons.IH[OF rest new b'])
qed

lemma b2j_range: "\<forall>j\<in>set (b2j b blo bhi x). blo \<le> j \<and> j < bhi"
  by (auto simp: b2j_def)

lemma len_ok_zero: "len_ok alo blo bhi n (\<lambda>j. 0)"
  by (simp add: len_ok_def)

lemma match_rows_inv:
  assumes "alo \<le> i0" "len_ok alo blo bhi i0 j2len" "block_ok alo i0 blo bhi best"
  shows "block_ok alo (max i0 ahi) blo bhi
           (snd (match_rows a b blo bhi [i0..<ahi] (j2len, best)))"
  using assms
proof (induction "ahi - i0" arbitrary: i0 j2len best)
  case 0
  then have "[i0..<ahi] = []" by simp
  moreover have "max i0 ahi = i0" using 0 by simp
  ultimately show ?case using "0.prems" by simp
next
  case (Suc n)
  then have lt: "i0 < ahi" by simp
  then have up: "[i0..<ahi] = i0 # [Suc i0..<ahi]" by (simp add: upt_conv_Cons)
  define st where "st = match_row j2len i0 (b2j b blo bhi (a ! i0)) (\<lambda>j. 0, best)"
  have inv: "len_ok alo blo bhi (Suc i0) (fst st) \<and> block_ok alo (Suc i0) blo bhi (snd st)"
    unfolding st_def
    using Suc.prems(2) Suc.prems(1) b2j_range len_ok_zero
  proof (rule match_row_inv)
    show "block_ok alo (Suc i0) blo bhi best"
      using Suc.prems(3) by (rule block_ok_mono) simp
  qed
  have n: "n = ahi - Suc i0" using Suc.hyps(2) by simp
  have "block_ok alo (max (Suc i0) ahi) blo bhi
          (snd (match_rows a b blo bhi [Suc i0..<ahi] (fst st, snd st)))"
    using Suc.hyps(1)[OF n, of "fst st" "snd st"] Suc.prems(1) inv by simp
  moreover have "max (Suc i0) ahi = max i0 ahi" using lt by simp
  moreover have "match_rows a b blo bhi [i0..<ahi] (j2len, best) =
                 match_rows a b blo bhi [Suc i0..<ahi] (fst st, snd st)"
    unfolding up st_def by simp
  ultimately show ?case by simp
qed

lemma extend_left_ok:
  "block_ok alo ahi blo bhi m \<Longrightarrow> block_ok alo ahi blo bhi (extend_left a b alo blo m)"
proof (induction a b alo blo m rule: extend_left.induct)
  case (1 a b alo blo besti bestj bestsize)
  show ?case
  proof (cases "alo < besti \<and> blo < bestj \<and> a ! (besti - 1) = b ! (bestj - 1)")
    case True
    have "block_ok alo ahi blo bhi (besti - 1, bestj - 1, bestsize + 1)"
      using "1.prems" True by (auto simp: block_ok_def split: if_splits)
    then have "block_ok alo ahi blo bhi (extend_left a b alo blo (besti - 1, bestj - 1, bestsize + 1))"
      using "1.IH" True by simp
    then show ?thesis using True by (subst extend_left.simps) simp
  next
    case False
    then show ?thesis using "1.prems" by (subst extend_left.simps) auto
  qed
qed

lemma extend_right_ok:
  "block_ok alo ahi blo bhi m \<Longrightarrow> block_ok alo ahi blo bhi (extend_right a b ahi bhi m)"
proof (induction a b ahi bhi m rule: extend_right.induct)
  case (1 a b ahi bhi besti bestj bestsize)
  show ?case
  proof (cases "besti + bestsize < ahi \<and> bestj + bestsize < bhi
         \<and> a ! (besti + bestsize) = b ! (bestj + bestsize)")
    case True
    have "block_ok alo ahi blo bhi (besti, bestj, bestsize + 1)"
      using "1.prems" True by (auto simp: block_ok_def split: if_splits)
    then have "block_ok alo ahi blo bhi (extend_right a b ahi bhi (besti, bestj, bestsize + 1))"
      using "1.IH" True by simp
    then show ?thesis using True by (subst extend_right.simps) simp
  next
    case False
    then show ?thesis using "1.prems" by (subst extend_right.simps) auto
  qed
qed

lemma find_longest_match_ok:
  "block_ok alo ahi blo bhi (find_longest_match a b alo ahi blo bhi)"
proof -
  have init: "block_ok alo alo blo bhi (alo, blo, 0)" by (simp add: block_ok_def)
  have "block_ok alo (max alo ahi) blo bhi
          (snd (match_rows a b blo bhi [alo..<ahi] (\<lambda>j. 0, (alo, blo, 0))))"
    by (rule match_rows_inv[OF le_refl len_ok_zero init])
  then have rows: "block_ok alo ahi blo bhi
          (snd (match_rows a b blo bhi [alo..<ahi] (\<lambda>j. 0, (alo, blo, 0))))"
  proof (cases "alo \<le> ahi")
    case True
    then have "max alo ahi = ahi" by simp
    with \<open>block_ok alo (max alo ahi) blo bhi _\<close> show ?thesis by simp
  next
    case False
    then have e: "[alo..<ahi] = []" by simp
    show ?thesis unfolding e by (simp add: block_ok_def)
  qed
  show ?thesis unfolding find_longest_match_def
    by (intro extend_right_ok extend_left_ok rows)
qed

lemma find_longest_match_bounds:
  assumes "find_longest_match a b alo ahi blo bhi = (i, j, k)" "k \<noteq> 0"
  shows "alo \<le> i" "i + k \<le> ahi" "blo \<le> j" "j + k \<le> bhi"
  using find_longest_match_ok[of alo ahi blo bhi a b] assms
  by (simp_all add: block_ok_def)

text \<open>
  \<open>get_matching_blocks\<close>: the loop over the queue of regions still to be searched (the
  queue is a stack: \<open>pop()\<close> takes the region appended last). The function then sorts the
  blocks, merges adjacent ones and appends an empty block, none of which changes the sum of
  the sizes, which is all that \<open>ratio\<close> reads; the model stops at the list of blocks found.
\<close>

type_synonym region = "nat \<times> nat \<times> nat \<times> nat"

definition region_weight :: "region \<Rightarrow> nat" where
  "region_weight r = (case r of (alo, ahi, blo, bhi) \<Rightarrow> 2 * (ahi - alo) + 1)"

function matching_blocks_loop :: "ustr \<Rightarrow> ustr \<Rightarrow> region list \<Rightarrow> match list \<Rightarrow> match list" where
  "matching_blocks_loop a b [] matching_blocks = matching_blocks"
| "matching_blocks_loop a b ((alo, ahi, blo, bhi) # queue) matching_blocks =
     (case find_longest_match a b alo ahi blo bhi of
        (i, j, k) \<Rightarrow>
          if k \<noteq> 0 then
            matching_blocks_loop a b
              ((if i + k < ahi \<and> j + k < bhi then [(i + k, ahi, j + k, bhi)] else [])
                 @ (if alo < i \<and> blo < j then [(alo, i, blo, j)] else []) @ queue)
              (matching_blocks @ [(i, j, k)])
          else matching_blocks_loop a b queue matching_blocks)"
  by pat_completeness auto
termination
proof (relation "measure (\<lambda>(a, b, queue, blocks). sum_list (map region_weight queue))")
  show "wf (measure (\<lambda>(a, b, queue, blocks). sum_list (map region_weight queue)))" by simp
next
  fix a b :: ustr and alo ahi blo bhi :: nat and queue :: "region list"
    and matching_blocks :: "match list" and i :: nat and y :: "nat \<times> nat" and j k :: nat
  assume "(i, y) = find_longest_match a b alo ahi blo bhi" "(j, k) = y" "k \<noteq> 0"
  then have f: "find_longest_match a b alo ahi blo bhi = (i, j, k)" by simp
  note bd = find_longest_match_bounds[OF f \<open>k \<noteq> 0\<close>]
  have "sum_list (map region_weight
          ((if i + k < ahi \<and> j + k < bhi then [(i + k, ahi, j + k, bhi)] else [])
             @ (if alo < i \<and> blo < j then [(alo, i, blo, j)] else []) @ queue))
        \<le> (2 * (ahi - (i + k)) + 1) + (2 * (i - alo) + 1) + sum_list (map region_weight queue)"
    by (simp add: region_weight_def)
  also have "\<dots> < region_weight (alo, ahi, blo, bhi) + sum_list (map region_weight queue)"
    using bd \<open>k \<noteq> 0\<close> by (simp add: region_weight_def)
  finally show "((a, b,
           (if i + k < ahi \<and> j + k < bhi then [(i + k, ahi, j + k, bhi)] else [])
             @ (if alo < i \<and> blo < j then [(alo, i, blo, j)] else []) @ queue,
           matching_blocks @ [(i, j, k)]),
          (a, b, (alo, ahi, blo, bhi) # queue, matching_blocks))
        \<in> measure (\<lambda>(a, b, queue, blocks). sum_list (map region_weight queue))"
    by simp
next
  fix a b :: ustr and alo ahi blo bhi :: nat and queue :: "region list"
    and matching_blocks :: "match list"
  show "((a, b, queue, matching_blocks), (a, b, (alo, ahi, blo, bhi) # queue, matching_blocks))
        \<in> measure (\<lambda>(a, b, queue, blocks). sum_list (map region_weight queue))"
    by (simp add: region_weight_def)
qed

declare matching_blocks_loop.simps [simp del]

definition get_matching_blocks :: "ustr \<Rightarrow> ustr \<Rightarrow> match list" where
  "get_matching_blocks a b = matching_blocks_loop a b [(0, length a, 0, length b)] []"

definition block_size :: "match \<Rightarrow> nat" where
  "block_size m = (case m of (i, j, k) \<Rightarrow> k)"

text \<open>\<open>_calculate_ratio\<close>: \<open>2.0 * matches / length\<close>, or \<open>1.0\<close> when both sequences are empty.\<close>

definition calculate_ratio :: "nat \<Rightarrow> nat \<Rightarrow> rat" where
  "calculate_ratio matches len =
     (if len \<noteq> 0 then fdiv (fmul 2 (fl (of_nat matches))) (fl (of_nat len)) else 1)"

definition ratio :: "ustr \<Rightarrow> ustr \<Rightarrow> rat" where
  "ratio a b =
     calculate_ratio (sum_list (map block_size (get_matching_blocks a b))) (length a + length b)"

text \<open>The number of elements of \<open>a\<close>, and of \<open>b\<close>, in a region.\<close>

definition region_len_a :: "region \<Rightarrow> nat" where
  "region_len_a r = (case r of (alo, ahi, blo, bhi) \<Rightarrow> ahi - alo)"

definition region_len_b :: "region \<Rightarrow> nat" where
  "region_len_b r = (case r of (alo, ahi, blo, bhi) \<Rightarrow> bhi - blo)"

(*SCORER*)

subsection \<open>Vocabulary for the properties of custom templates\<close>






subsection \<open>Sample records\<close>






section \<open>Properties of the folder-name parser\<close>

lemma bracket_step_gui_fst:
  "fst (bracket_step_gui U st seg) =
     (if accepted_date U (strip seg) then strip seg else fst st)"
proof (cases "py_isdigit U (strip seg) \<and> length (strip seg) = 6")
  case False
  then show ?thesis
    by (auto simp: bracket_step_gui_def accepted_date_def producer_branch_def Let_def)
next
  case True
  then show ?thesis
    by (cases "py_int U (slice 2 4 (strip seg))"; cases "py_int U (slice 4 6 (strip seg))")
       (simp_all add: bracket_step_gui_def accepted_date_def Let_def)
qed

lemma bracket_foldl_gui_fst:
  "fst (foldl (bracket_step_gui U) st segs) =
     (let ds = filter (accepted_date U) (map strip segs)
      in if ds = [] then fst st else last ds)"
proof (induction segs arbitrary: st)
  case Nil
  then show ?case by simp
next
  case (Cons seg segs)
  show ?case
    by (simp add: Cons.IH bracket_step_gui_fst Let_def)
qed

lemma bracket_step_cli_gui:
  assumes "bracket_step_cli U st seg = Inr r"
  shows "r = bracket_step_gui U st seg"
proof (cases "py_isdigit U (strip seg) \<and> length (strip seg) = 6")
  case False
  then show ?thesis using assms
    by (auto simp: bracket_step_cli_def bracket_step_gui_def Let_def)
next
  case True
  then show ?thesis using assms
    by (cases "py_int U (slice 2 4 (strip seg))"; cases "py_int U (slice 4 6 (strip seg))")
       (auto simp: bracket_step_cli_def bracket_step_gui_def Let_def)
qed

lemma bracket_loop_cli_gui:
  "bracket_loop_cli U st segs = Inr r \<Longrightarrow> r = foldl (bracket_step_gui U) st segs"
proof (induction segs arbitrary: st)
  case Nil
  then show ?case by simp
next
  case (Cons seg segs)
  show ?case
  proof (cases "bracket_step_cli U st seg")
    case (Inl e)
    with Cons.prems show ?thesis by simp
  next
    case (Inr st')
    then have "st' = bracket_step_gui U st seg" by (rule bracket_step_cli_gui)
    with Cons.prems Inr Cons.IH[of st'] show ?thesis by simp
  qed
qed

lemma digits_value_decimal:
  "\<forall>c\<in>set s. decimal_cp U c \<noteq> None \<Longrightarrow> \<exists>n. digits_value U acc s = Some n"
  by (induction s arbitrary: acc) auto

lemma py_int_decimal:
  "s \<noteq> [] \<Longrightarrow> \<forall>c\<in>set s. decimal_cp U c \<noteq> None \<Longrightarrow> \<exists>n. py_int U s = Inr n"
  using digits_value_decimal[of s U 0] by (auto simp: py_int_def)

lemma py_int_Inl_iff:
  "py_int U s = Inl e \<Longrightarrow> e = ValueError"
  by (auto simp: py_int_def split: if_splits option.splits)

lemma set_strip: "set (strip s) \<subseteq> set s"
  by (auto simp: strip_def dest!: set_dropWhileD)

lemma set_slice: "set (slice i j s) \<subseteq> set s"
  unfolding slice_def by (meson set_take_subset set_drop_subset subset_trans)

lemma take_span_set:
  "take_span cl s = Some (inner, rest) \<Longrightarrow> set inner \<subseteq> set s \<and> set rest \<subseteq> set s"
  by (induction s arbitrary: inner) (auto split: if_splits option.splits)

lemma findall_span_set:
  "seg \<in> set (findall_span op cl s) \<Longrightarrow> set seg \<subseteq> set s"
proof (induction op cl s rule: findall_span.induct)
  case (1 op cl)
  then show ?case by simp
next
  case (2 op cl c cs)
  then show ?case
  proof (cases "c = op")
    case False
    with 2 show ?thesis by auto
  next
    case True
    show ?thesis
    proof (cases "take_span cl cs")
      case None
      with 2 True show ?thesis by auto
    next
      case (Some p)
      obtain inner rest where p: "p = (inner, rest)" by (cases p)
      have sub: "set inner \<subseteq> set cs" "set rest \<subseteq> set cs"
        using take_span_set Some p by blast+
      from 2(4) True Some p have "seg = inner \<or> seg \<in> set (findall_span op cl rest)" by simp
      then show ?thesis
      proof
        assume "seg = inner" then show ?thesis using sub by auto
      next
        assume "seg \<in> set (findall_span op cl rest)"
        then have "set seg \<subseteq> set rest" using 2(2)[OF True Some[unfolded p] refl] by simp
        then show ?thesis using sub by auto
      qed
    qed
  qed
qed

lemma bracket_step_cli_total:
  assumes "decimal_digits U seg"
  shows "bracket_step_cli U st seg = Inr (bracket_step_gui U st seg)"
proof (cases "py_isdigit U (strip seg) \<and> length (strip seg) = 6")
  case False
  then show ?thesis by (auto simp: bracket_step_cli_def bracket_step_gui_def Let_def)
next
  case True
  have dec: "\<forall>c\<in>set (strip seg). decimal_cp U c \<noteq> None"
    using assms True set_strip[of seg]
    by (auto simp: decimal_digits_def py_isdigit_def list_all_iff)
  have ne1: "slice 2 4 (strip seg) \<noteq> []" and ne2: "slice 4 6 (strip seg) \<noteq> []"
    using True by (auto simp: slice_def)
  obtain mm where mm: "py_int U (slice 2 4 (strip seg)) = Inr mm"
    using py_int_decimal[OF ne1] dec set_slice[of 2 4 "strip seg"] by blast
  obtain dd where dd: "py_int U (slice 4 6 (strip seg)) = Inr dd"
    using py_int_decimal[OF ne2] dec set_slice[of 4 6 "strip seg"] by blast
  show ?thesis using True mm dd
    by (simp add: bracket_step_cli_def bracket_step_gui_def Let_def)
qed

lemma bracket_loop_cli_total:
  "\<forall>seg\<in>set segs. decimal_digits U seg \<Longrightarrow>
   bracket_loop_cli U st segs = Inr (foldl (bracket_step_gui U) st segs)"
  by (induction segs arbitrary: st) (auto simp: bracket_step_cli_total)

lemma parse_bracket_info_cli_total:
  assumes "decimal_digits U folder_name"
  shows "parse_bracket_info_cli U folder_name = Inr (parse_bracket_info_gui U folder_name)"
proof -
  have "\<forall>seg\<in>set (findall_span 91 93 folder_name). decimal_digits U seg"
  proof
    fix seg assume "seg \<in> set (findall_span 91 93 folder_name)"
    then have "set seg \<subseteq> set folder_name" by (rule findall_span_set)
    with assms show "decimal_digits U seg" unfolding decimal_digits_def by blast
  qed
  then show ?thesis
    by (simp add: parse_bracket_info_cli_def parse_bracket_info_gui_def bracket_loop_cli_total)
qed

subsection \<open>The expected date is the last valid span\<close>

lemmas parser_eval =
  parse_bracket_info_cli_def parse_bracket_info_gui_def u_def bracket_step_cli_def
  bracket_step_gui_def producer_branch_def strip_def isspace_cp_def py_isdigit_def
  ascii_db_def ascii_digit_def py_int_def slice_def valid_mmdd_def

text \<open>
  Claim C1, as amended. The loop assigns \<open>expected_date\<close> at every segment that passes the date
  test, without looking at the value it already holds. For every folder name the expected
  date returned by \<open>parse_bracket_info\<close> is therefore the LAST bracketed span that passes the
  test (the empty string when there is none): a later valid span overwrites an earlier one.
  This holds for the graphical program, and for the command-line program whenever it
  returns; it returns whenever every digit of the name is a decimal digit.
\<close>

theorem last_valid_date_wins:
  "fst (parse_bracket_info_gui U folder_name) =
     last_or_empty (filter (accepted_date U) (map strip (findall_span 91 93 folder_name))) \<and>
   (\<forall>r. parse_bracket_info_cli U folder_name = Inr r \<longrightarrow>
      fst r = last_or_empty (filter (accepted_date U) (map strip (findall_span 91 93 folder_name)))) \<and>
   (decimal_digits U folder_name \<longrightarrow> (\<exists>r. parse_bracket_info_cli U folder_name = Inr r))"
proof -
  have g: "fst (parse_bracket_info_gui U folder_name) =
     last_or_empty (filter (accepted_date U) (map strip (findall_span 91 93 folder_name)))"
    by (simp add: parse_bracket_info_gui_def bracket_foldl_gui_fst last_or_empty_def Let_def)
  have c: "parse_bracket_info_cli U folder_name = Inr r \<Longrightarrow> r = parse_bracket_info_gui U folder_name" for r
    unfolding parse_bracket_info_cli_def parse_bracket_info_gui_def
    by (rule bracket_loop_cli_gui)
  have t: "decimal_digits U folder_name \<Longrightarrow> \<exists>r. parse_bracket_info_cli U folder_name = Inr r"
    by (simp add: parse_bracket_info_cli_total)
  from g c t show ?thesis by (intro conjI allI impI) simp_all
qed

theorem last_valid_date_wins_witness:
  "decimal_digits ascii_db (u ''[231215][240101]'') \<and>
   (\<exists>r. parse_bracket_info_cli ascii_db (u ''[231215][240101]'') = Inr r) \<and>
   fst (parse_bracket_info_gui ascii_db (u ''[231215][240101]'')) = u ''240101''"
proof -
  have d: "decimal_digits ascii_db (u ''[231215][240101]'')"
    by (simp add: decimal_digits_def u_def ascii_db_def)
  have l: "last_or_empty (filter (accepted_date ascii_db)
               (map strip (findall_span 91 93 (u ''[231215][240101]'')))) = u ''240101''"
    by (simp add: last_or_empty_def accepted_date_def parser_eval)
  show ?thesis
    using last_valid_date_wins[of ascii_db "u ''[231215][240101]''"] d l by simp
qed

text \<open>
  Claim C1 as stated (the first valid span is kept) fails: for \<open>[231215][240101]\<close> both
  programs return the second date.
\<close>

theorem first_valid_date_counterexample:
  "fst (parse_bracket_info_gui ascii_db (u ''[231215][240101]'')) \<noteq> u ''231215'' \<and>
   parse_bracket_info_cli ascii_db (u ''[231215][240101]'') = Inr (u ''240101'', [])"
  by (simp add: parser_eval)

subsection \<open>Which six-digit spans are accepted\<close>

lemma take_span_append:
  "cl \<notin> set s \<Longrightarrow> 10 \<notin> set s \<Longrightarrow> take_span cl (s @ cl # rest) = Some (s, rest)"
  by (induction s) auto

lemma findall_span_no_open:
  "op \<notin> set s \<Longrightarrow> findall_span op cl s = []"
  by (induction s) auto

lemma findall_span_skip:
  "op \<notin> set pre \<Longrightarrow> findall_span op cl (pre @ s) = findall_span op cl s"
  by (induction pre) auto

lemma findall_span_one:
  assumes "op \<notin> set pre" "cl \<notin> set seg" "10 \<notin> set seg"
  shows "findall_span op cl (pre @ op # seg @ cl # post) = seg # findall_span op cl post"
  using assms by (simp add: findall_span_skip take_span_append)

lemma strip_id:
  assumes "\<forall>c\<in>set s. \<not> isspace_cp c"
  shows "strip s = s"
proof -
  have d: "dropWhile isspace_cp t = t" if "\<forall>c\<in>set t. \<not> isspace_cp c" for t
    using that by (cases t) auto
  have "dropWhile isspace_cp s = s" using assms by (rule d)
  moreover have "dropWhile isspace_cp (rev s) = rev s" using assms by (intro d) simp
  ultimately show ?thesis by (simp add: strip_def)
qed

lemma digit_string_plain:
  assumes "unicode_ok U" "py_isdigit U seg"
  shows "93 \<notin> set seg" "10 \<notin> set seg" "strip seg = seg"
proof -
  have d: "\<forall>c\<in>set seg. isdigit_cp U c" using assms(2) by (simp add: py_isdigit_def list_all_iff)
  have n93: "\<not> isdigit_cp U 93" and n10: "\<not> isdigit_cp U 10"
    using assms(1) by (auto simp: unicode_ok_def ascii_digit_def)
  show "93 \<notin> set seg" using d n93 by blast
  show "10 \<notin> set seg" using d n10 by blast
  have "\<forall>c\<in>set seg. \<not> isspace_cp c" using d assms(1) unfolding unicode_ok_def by blast
  then show "strip seg = seg" by (rule strip_id)
qed

lemma bracket_step_cli_error:
  assumes "bracket_step_cli U st seg = Inl e"
  shows "e = ValueError"
proof (cases "py_isdigit U (strip seg) \<and> length (strip seg) = 6")
  case False
  then show ?thesis using assms by (auto simp: bracket_step_cli_def Let_def)
next
  case True
  then show ?thesis using assms
    by (cases "py_int U (slice 2 4 (strip seg))"; cases "py_int U (slice 4 6 (strip seg))")
       (auto simp: bracket_step_cli_def Let_def dest: py_int_Inl_iff)
qed

lemma accepted_date_iff:
  "py_isdigit U seg \<Longrightarrow> length seg = 6 \<Longrightarrow> accepted_date U seg = month_day_ok U seg"
  by (cases "py_int U (slice 2 4 seg)"; cases "py_int U (slice 4 6 seg)")
     (simp_all add: accepted_date_def month_day_ok_def valid_mmdd_def)

text \<open>
  Claim C2, as amended. In a folder name whose only bracketed span \<open>seg\<close> is exactly six
  digits, the span becomes the expected date if and only if its month component is in
  1..12 and its day component is in 1..31; the test does not depend on the month, so
  \<open>250230\<close> is accepted like \<open>231215\<close>. The command-line program raises \<open>ValueError\<close> instead
  of returning only when the span has a digit that is not a decimal digit.
\<close>

theorem six_digit_span_accepted_iff:
  assumes "unicode_ok U" "py_isdigit U seg" "length seg = 6"
    and "91 \<notin> set pre" "91 \<notin> set post"
  shows "(fst (parse_bracket_info_gui U (pre @ 91 # seg @ 93 # post)) = seg) = month_day_ok U seg \<and>
         (case parse_bracket_info_cli U (pre @ 91 # seg @ 93 # post) of
            Inr r \<Rightarrow> (fst r = seg) = month_day_ok U seg
          | Inl e \<Rightarrow> e = ValueError \<and> \<not> (\<forall>c\<in>set seg. decimal_cp U c \<noteq> None))"
proof -
  let ?name = "pre @ 91 # seg @ 93 # post"
  note plain = digit_string_plain[OF assms(1,2)]
  have fa: "findall_span 91 93 ?name = [seg]"
    using findall_span_one[OF assms(4) plain(1,2), of post] findall_span_no_open[OF assms(5)]
    by simp
  have ne: "seg \<noteq> []" using assms(3) by auto
  have acc: "accepted_date U seg = month_day_ok U seg"
    using accepted_date_iff[OF assms(2,3)] .
  have gui: "parse_bracket_info_gui U ?name = bracket_step_gui U ([], []) seg"
    by (simp add: parse_bracket_info_gui_def fa)
  have g: "(fst (parse_bracket_info_gui U ?name) = seg) = month_day_ok U seg"
    using ne acc by (auto simp: gui bracket_step_gui_fst plain(3))
  have cli: "parse_bracket_info_cli U ?name = bracket_step_cli U ([], []) seg"
    by (cases "bracket_step_cli U ([], []) seg") (simp_all add: parse_bracket_info_cli_def fa)
  have c: "(case parse_bracket_info_cli U ?name of
            Inr r \<Rightarrow> (fst r = seg) = month_day_ok U seg
          | Inl e \<Rightarrow> e = ValueError \<and> \<not> (\<forall>c\<in>set seg. decimal_cp U c \<noteq> None))"
  proof (cases "bracket_step_cli U ([], []) seg")
    case (Inr r)
    then have "r = bracket_step_gui U ([], []) seg" by (rule bracket_step_cli_gui)
    with g gui cli Inr show ?thesis by simp
  next
    case (Inl e)
    have "e = ValueError" using Inl by (rule bracket_step_cli_error)
    moreover have "\<not> (\<forall>c\<in>set seg. decimal_cp U c \<noteq> None)"
    proof
      assume "\<forall>c\<in>set seg. decimal_cp U c \<noteq> None"
      then have "decimal_digits U seg" by (simp add: decimal_digits_def)
      then have "bracket_step_cli U ([], []) seg = Inr (bracket_step_gui U ([], []) seg)"
        by (rule bracket_step_cli_total)
      with Inl show False by simp
    qed
    ultimately show ?thesis using cli Inl by simp
  qed
  from g c show ?thesis by (rule conjI)
qed

theorem six_digit_span_accepted_iff_witness:
  "unicode_ok ascii_db \<and> py_isdigit ascii_db (u ''231215'') \<and> length (u ''231215'') = 6 \<and>
   month_day_ok ascii_db (u ''231215'') \<and>
   parse_bracket_info_gui ascii_db (u ''[231215]'') = (u ''231215'', []) \<and>
   parse_bracket_info_cli ascii_db (u ''[231215]'') = Inr (u ''231215'', [])"
proof -
  have ok: "unicode_ok ascii_db"
    by (auto simp: unicode_ok_def ascii_db_def ascii_digit_def isspace_cp_def)
  have dg: "py_isdigit ascii_db (u ''231215'')" and ln: "length (u ''231215'') = 6"
    by (simp_all add: py_isdigit_def u_def ascii_db_def ascii_digit_def)
  have md: "month_day_ok ascii_db (u ''231215'')"
    by (simp add: month_day_ok_def py_int_def slice_def u_def ascii_db_def ascii_digit_def)
  have nm: "[] @ 91 # u ''231215'' @ 93 # [] = u ''[231215]''"
    by (simp add: u_def)
  have snd_g: "snd (parse_bracket_info_gui ascii_db (u ''[231215]'')) = []"
    and cl: "parse_bracket_info_cli ascii_db (u ''[231215]'') =
         Inr (parse_bracket_info_gui ascii_db (u ''[231215]''))"
    by (simp_all add: parser_eval)
  have "fst (parse_bracket_info_gui ascii_db (u ''[231215]'')) = u ''231215''"
    using six_digit_span_accepted_iff[OF ok dg ln, of "[]" "[]"] md unfolding nm by simp
  with snd_g cl ok dg ln md show ?thesis by (simp add: prod_eq_iff)
qed

text \<open>
  Claim C2 as stated (the span \<open>250230\<close> is rejected) fails: both programs accept it.
\<close>

theorem feb30_counterexample:
  "fst (parse_bracket_info_gui ascii_db (u ''[250230]'')) = u ''250230'' \<and>
   parse_bracket_info_cli ascii_db (u ''[250230]'') = Inr (u ''250230'', [])"
  by (simp add: parser_eval)

subsection \<open>The title\<close>

lemmas title_eval =
  parse_folder_name_cli_def parse_folder_name_gui_def cleaned_name_def u_def strip_def
  isspace_cp_def before_plus_def

lemma parse_folder_name_example:
  "parse_folder_name_cli (u ''[VNDS][231215] Example Title (18+) {Flag}'') = u ''Example Title'' \<and>
   parse_folder_name_gui (u ''[VNDS][231215] Example Title (18+) {Flag}'') = u ''Example Title''"
  by (simp add: title_eval)

lemma parse_folder_name_cli_no_plus: "43 \<notin> set (parse_folder_name_cli folder_name)"
proof (cases "43 \<in> set (cleaned_name folder_name)")
  case False
  then show ?thesis by (simp add: parse_folder_name_cli_def Let_def)
next
  case True
  have "set (strip (before_plus (cleaned_name folder_name)))
          \<subseteq> set (before_plus (cleaned_name folder_name))"
    by (rule set_strip)
  moreover have "43 \<notin> set (before_plus (cleaned_name folder_name))"
    unfolding before_plus_def by (auto dest: set_takeWhileD)
  ultimately show ?thesis using True by (auto simp: parse_folder_name_cli_def Let_def)
qed

text \<open>
  Claim C8. The command-line \<open>parse_folder_name\<close> cuts the cleaned name at the first \<open>+\<close>
  (\<open>parse_folder_name_cli_no_plus\<close>); the \<open>parse_folder_name\<close> of the graphical program has
  no such step and returns the text after the \<open>+\<close> as well. On \<open>Title + Bonus\<close> the two
  programs differ.
\<close>

theorem parse_folder_name_gui_keeps_plus:
  "parse_folder_name_gui (u ''Title + Bonus'') = u ''Title + Bonus'' \<and>
   parse_folder_name_cli (u ''Title + Bonus'') = u ''Title''"
  by (simp add: title_eval)

section \<open>Properties of the content flag detector\<close>






section \<open>Properties of the name synthesizer\<close>

subsection \<open>Parsing a synthesized name\<close>























subsection \<open>Custom templates with an unknown placeholder\<close>















section \<open>Properties of the arithmetic and of the similarity ratio\<close>

lemma floor_numeral_div: "\<lfloor>(numeral a :: rat) / numeral b\<rfloor> = numeral a div numeral b"
  using floor_divide_of_int_eq[of "numeral a" "numeral b", where ?'a = rat] by simp

lemmas fl_eval = fl_def fadd_def fmul_def fdiv_def expo.simps round_half_even_def Let_def
  floor_numeral_div

lemma float_examples:
  "fl (1 / 6) = 6004799503160661 / 36028797018963968"
  "fl 3 = 3" "fl 1 = 1" "fl (1 / 2) = 1 / 2" "fl 12 = 12"
  "fdiv (fadd (fadd (fl (1 / 6)) (1 / 2)) (1 / 2)) 3 = 875699927544263 / 2251799813685248"
  "fdiv (fadd (fl (1 / 6)) 1) 3 = 7005599420354105 / 18014398509481984"
  by (simp_all add: fl_eval)

lemma pow2_succ: "(2::rat) powi (n + 1) = 2 * 2 powi n"
  by (simp add: power_int_add)

lemma pow2_pred: "(2::rat) powi (n - 1) = 2 powi n / 2"
  by (simp add: power_int_diff)

lemma pow2_pos: "0 < (2::rat) powi n"
  by simp

lemma pow2_mono: "m \<le> n \<Longrightarrow> (2::rat) powi m \<le> 2 powi n"
  by (rule power_int_increasing) simp_all

lemma pow2_less_imp: "(2::rat) powi m < 2 powi n \<Longrightarrow> m < n"
  using pow2_mono[of n m] by (cases "m < n") auto

lemma expo_bounds:
  "0 < x \<Longrightarrow> 2 powi expo x \<le> x \<and> x < 2 powi (expo x + 1)"
proof (induction x rule: expo.induct)
  case (1 x)
  have pos: "\<not> x \<le> 0" using "1.prems" by simp
  show ?case
  proof (cases "x < 1")
    case True
    define e where "e = expo (2 * x)"
    have ex: "expo x = e - 1" using pos True unfolding e_def by (subst expo.simps) simp
    have ih: "2 powi e \<le> 2 * x" "2 * x < 2 powi (e + 1)"
      using "1.IH"(1)[OF pos True] "1.prems" unfolding e_def by simp_all
    have p: "(2::rat) powi (e - 1) = 2 powi e / 2" "(2::rat) powi (e - 1 + 1) = 2 powi e"
            "(2::rat) powi (e + 1) = 2 * 2 powi e"
      by (simp_all add: power_int_diff power_int_add)
    show ?thesis unfolding ex p(1,2) using ih p(3) by linarith
  next
    case False
    show ?thesis
    proof (cases "2 \<le> x")
      case True
      define e where "e = expo (x / 2)"
      have ex: "expo x = e + 1" using pos False True unfolding e_def by (subst expo.simps) simp
      have ih: "2 powi e \<le> x / 2" "x / 2 < 2 powi (e + 1)"
        using "1.IH"(2)[OF pos False True] "1.prems" unfolding e_def by simp_all
      have p: "(2::rat) powi (e + 1) = 2 * 2 powi e" "(2::rat) powi (e + 1 + 1) = 4 * 2 powi e"
        by (simp_all add: power_int_add)
      show ?thesis unfolding ex p using ih p(1) by linarith
    next
      case n2: False
      then have e: "expo x = 0" using pos False by (subst expo.simps) simp
      show ?thesis unfolding e using False n2 by simp
    qed
  qed
qed

lemma expo_unique:
  assumes "2 powi e \<le> x" "x < 2 powi (e + 1)"
  shows "expo x = e"
proof -
  have x: "0 < x" using assms(1) pow2_pos[of e] by linarith
  note b = expo_bounds[OF x]
  have "2 powi e < (2::rat) powi (expo x + 1)" using assms(1) b by simp
  then have 1: "e < expo x + 1" by (rule pow2_less_imp)
  have "2 powi expo x < (2::rat) powi (e + 1)" using assms(2) b by simp
  then have 2: "expo x < e + 1" by (rule pow2_less_imp)
  from 1 2 show ?thesis by simp
qed

lemma round_half_even_lower: "of_int n \<le> z \<Longrightarrow> n \<le> round_half_even z"
proof -
  assume "of_int n \<le> z"
  then have "n \<le> \<lfloor>z\<rfloor>" by (simp add: le_floor_iff)
  then show ?thesis by (simp add: round_half_even_def Let_def)
qed

lemma round_half_even_of_int [simp]: "round_half_even (of_int n) = n"
  by (simp add: round_half_even_def Let_def)

lemma round_half_even_upper: "z \<le> of_int n \<Longrightarrow> round_half_even z \<le> n"
proof (cases "z = of_int n")
  case True
  then show ?thesis by simp
next
  case False
  assume "z \<le> of_int n"
  with False have "z < of_int n" by simp
  then have "\<lfloor>z\<rfloor> < n" by (simp add: floor_less_iff)
  then show ?thesis by (simp add: round_half_even_def Let_def)
qed

lemma round_half_even_mono:
  assumes "z \<le> z'"
  shows "round_half_even z \<le> round_half_even z'"
proof (cases "\<lfloor>z\<rfloor> = \<lfloor>z'\<rfloor>")
  case True
  then show ?thesis using assms by (auto simp: round_half_even_def Let_def)
next
  case False
  have "\<lfloor>z\<rfloor> \<le> \<lfloor>z'\<rfloor>" using assms by (rule floor_mono)
  with False have "\<lfloor>z\<rfloor> + 1 \<le> \<lfloor>z'\<rfloor>" by simp
  moreover have "round_half_even z \<le> \<lfloor>z\<rfloor> + 1"
    by (simp add: round_half_even_def Let_def)
  moreover have "\<lfloor>z'\<rfloor> \<le> round_half_even z'"
    by (simp add: round_half_even_def Let_def)
  ultimately show ?thesis by linarith
qed

lemma fl_pos_eq: "0 < x \<Longrightarrow> fl x = of_int (round_half_even (x / ulp x)) * ulp x"
  by (simp add: fl_def ulp_def Let_def)

lemma ulp_pos: "0 < ulp x"
  by (simp add: ulp_def)

lemma mantissa_bounds:
  assumes "0 < x"
  shows "2 ^ 52 \<le> x / ulp x" "x / ulp x < 2 ^ 53"
proof -
  note b = expo_bounds[OF assms]
  have u: "2 powi expo x = 2 ^ 52 * ulp x" "2 powi (expo x + 1) = 2 ^ 53 * ulp x"
    unfolding ulp_def by (simp_all add: power_int_diff power_int_add)
  show "2 ^ 52 \<le> x / ulp x" using b u ulp_pos[of x] by (simp add: pos_le_divide_eq)
  show "x / ulp x < 2 ^ 53" using b u ulp_pos[of x] by (simp add: pos_divide_less_eq)
qed

lemma fl_binade:
  assumes "0 < x"
  shows "2 powi expo x \<le> fl x" "fl x \<le> 2 powi (expo x + 1)"
proof -
  note m = mantissa_bounds[OF assms]
  have u: "2 powi expo x = 2 ^ 52 * ulp x" "2 powi (expo x + 1) = 2 ^ 53 * ulp x"
    unfolding ulp_def by (simp_all add: power_int_diff power_int_add)
  have "(of_int (2 ^ 52) :: rat) \<le> x / ulp x" using m(1) by simp
  then have "2 ^ 52 \<le> round_half_even (x / ulp x)" by (rule round_half_even_lower)
  then have "(2 ^ 52 :: rat) \<le> of_int (round_half_even (x / ulp x))"
    by (metis of_int_le_iff of_int_numeral of_int_power)
  then show "2 powi expo x \<le> fl x"
    unfolding u fl_pos_eq[OF assms] using ulp_pos[of x] by simp
  have "x / ulp x \<le> of_int (2 ^ 53)" using m(2) by simp
  then have "round_half_even (x / ulp x) \<le> 2 ^ 53" by (rule round_half_even_upper)
  then have "of_int (round_half_even (x / ulp x)) \<le> (2 ^ 53 :: rat)"
    by (metis of_int_le_iff of_int_numeral of_int_power)
  then show "fl x \<le> 2 powi (expo x + 1)"
    unfolding u fl_pos_eq[OF assms] using ulp_pos[of x] by simp
qed

lemma fl_nonneg: "0 \<le> x \<Longrightarrow> 0 \<le> fl x"
proof (cases "x = 0")
  case True
  then show ?thesis by (simp add: fl_def)
next
  case False
  assume "0 \<le> x"
  with False have "0 < x" by simp
  from fl_binade(1)[OF this] pow2_pos[of "expo x"] show ?thesis by linarith
qed

lemma fl_mono:
  assumes "0 \<le> x" "x \<le> y"
  shows "fl x \<le> fl y"
proof (cases "x = 0")
  case True
  then show ?thesis using assms fl_nonneg[of y] by (simp add: fl_def)
next
  case False
  then have x: "0 < x" and y: "0 < y" using assms by simp_all
  have "2 powi expo x \<le> x" using expo_bounds[OF x] by simp
  also have "x \<le> y" by fact
  also have "y < 2 powi (expo y + 1)" using expo_bounds[OF y] by simp
  finally have "expo x < expo y + 1" by (rule pow2_less_imp)
  then consider "expo x = expo y" | "expo x + 1 \<le> expo y" by linarith
  then show ?thesis
  proof cases
    case 1
    then have u: "ulp x = ulp y" by (simp add: ulp_def)
    have "x / ulp y \<le> y / ulp y" using assms(2) ulp_pos[of y] by (simp add: divide_right_mono)
    then have "round_half_even (x / ulp y) \<le> round_half_even (y / ulp y)"
      by (rule round_half_even_mono)
    then show ?thesis
      unfolding fl_pos_eq[OF x] fl_pos_eq[OF y] u using ulp_pos[of y] by simp
  next
    case 2
    have "fl x \<le> 2 powi (expo x + 1)" by (rule fl_binade(2)[OF x])
    also have "\<dots> \<le> 2 powi expo y" using 2 by (rule pow2_mono)
    also have "\<dots> \<le> fl y" by (rule fl_binade(1)[OF y])
    finally show ?thesis .
  qed
qed

lemma fl_exact:
  assumes "0 < n" "n < 2 ^ 53"
  shows "fl (of_int n * 2 powi k) = of_int n * 2 powi k"
proof -
  define x :: rat where "x = of_int n * 2 powi k"
  have x: "0 < x" using assms(1) by (simp add: x_def)
  have "(of_int n :: rat) < of_int (2 ^ 53)" using assms(2) by (simp only: of_int_less_iff)
  then have "x < 2 ^ 53 * 2 powi k" using pow2_pos[of k] by (simp add: x_def)
  also have "\<dots> = 2 powi (53 + k)" by (simp add: power_int_add)
  finally have "2 powi expo x < (2::rat) powi (53 + k)"
    using expo_bounds[OF x] by linarith
  then have lt: "expo x < 53 + k" by (rule pow2_less_imp)
  define j where "j = nat (k - (expo x - 52))"
  have j: "k = int j + (expo x - 52)" using lt by (simp add: j_def)
  have "(2::rat) powi (int j + (expo x - 52)) = 2 ^ j * ulp x"
    by (simp add: power_int_add ulp_def)
  then have k: "(2::rat) powi k = 2 ^ j * ulp x" using j by simp
  have xe: "x = of_int (n * 2 ^ j) * ulp x"
  proof -
    have "x = of_int n * 2 powi k" by (fact x_def)
    also have "\<dots> = of_int n * (2 ^ j * ulp x)" by (simp only: k)
    also have "\<dots> = of_int (n * 2 ^ j) * ulp x" by simp
    finally show ?thesis .
  qed
  have "x / ulp x = of_int (n * 2 ^ j) * ulp x / ulp x" using xe by simp
  also have "\<dots> = of_int (n * 2 ^ j)" using ulp_pos[of x] by simp
  finally have "round_half_even (x / ulp x) = n * 2 ^ j" by (simp only: round_half_even_of_int)
  then have "fl x = of_int (n * 2 ^ j) * ulp x" by (simp only: fl_pos_eq[OF x])
  then have "fl x = x" using xe by simp
  then show ?thesis unfolding x_def .
qed

lemma fl_small_int:
  assumes "0 \<le> n" "n < 2 ^ 53"
  shows "fl (of_int n) = of_int n"
proof (cases "n = 0")
  case True
  then show ?thesis by (simp add: fl_def)
next
  case False
  with assms(1) have "0 < n" by simp
  then have "fl (of_int n * 2 powi 0) = of_int n * 2 powi 0"
    using assms(2) by (rule fl_exact)
  then show ?thesis by (simp only: power_int_0_right mult_1_right)
qed

lemma fl_idem:
  assumes "0 \<le> x"
  shows "fl (fl x) = fl x"
proof (cases "x = 0")
  case True
  then show ?thesis by (simp add: fl_def)
next
  case False
  then have x: "0 < x" using assms by simp
  define m where "m = round_half_even (x / ulp x)"
  have fx: "fl x = of_int m * 2 powi (expo x - 52)"
    by (simp add: fl_pos_eq[OF x] m_def ulp_def)
  have "(of_int (2 ^ 52) :: rat) \<le> x / ulp x" using mantissa_bounds(1)[OF x] by simp
  then have lo: "2 ^ 52 \<le> m" unfolding m_def by (rule round_half_even_lower)
  have "x / ulp x \<le> of_int (2 ^ 53)" using mantissa_bounds(2)[OF x] by simp
  then have hi: "m \<le> 2 ^ 53" unfolding m_def by (rule round_half_even_upper)
  show ?thesis
  proof (cases "m = 2 ^ 53")
    case False
    with hi have "m < 2 ^ 53" by simp
    moreover have "0 < m" using lo by simp
    ultimately show ?thesis unfolding fx by (intro fl_exact)
  next
    case True
    have "fl x = of_int 1 * 2 powi (expo x + 1)"
      unfolding fx True by (simp add: power_int_diff power_int_add)
    moreover have "fl (of_int 1 * 2 powi (expo x + 1)) = of_int 1 * 2 powi (expo x + 1)"
      by (rule fl_exact) simp_all
    ultimately show ?thesis by simp
  qed
qed

lemma fl_double:
  assumes "0 \<le> x"
  shows "fl (2 * x) = 2 * fl x"
proof (cases "x = 0")
  case True
  then show ?thesis by (simp add: fl_def)
next
  case False
  then have x: "0 < x" using assms by simp
  then have x2: "0 < 2 * x" by simp
  have p: "(2::rat) powi (expo x + 1) = 2 * 2 powi expo x"
          "(2::rat) powi (expo x + 1 + 1) = 4 * 2 powi expo x"
    by (simp_all add: power_int_add)
  have "2 powi (expo x + 1) \<le> 2 * x" "2 * x < 2 powi (expo x + 1 + 1)"
    unfolding p using expo_bounds[OF x] p(1) by linarith+
  then have e: "expo (2 * x) = expo x + 1" by (rule expo_unique)
  have u: "ulp (2 * x) = 2 * ulp x" by (simp add: ulp_def e power_int_diff power_int_add)
  show ?thesis by (simp add: fl_pos_eq[OF x] fl_pos_eq[OF x2] u)
qed

lemma matching_blocks_loop_sum:
  "sum_list (map block_size (matching_blocks_loop a b queue blocks))
     \<le> sum_list (map block_size blocks) + sum_list (map region_len_a queue) \<and>
   sum_list (map block_size (matching_blocks_loop a b queue blocks))
     \<le> sum_list (map block_size blocks) + sum_list (map region_len_b queue)"
proof (induction a b queue blocks rule: matching_blocks_loop.induct)
  case (1 a b matching_blocks)
  then show ?case by (simp add: matching_blocks_loop.simps)
next
  case (2 a b alo ahi blo bhi queue matching_blocks)
  obtain i j k where f: "find_longest_match a b alo ahi blo bhi = (i, j, k)"
    by (cases "find_longest_match a b alo ahi blo bhi") auto
  show ?case
  proof (cases "k = 0")
    case True
    have "matching_blocks_loop a b ((alo, ahi, blo, bhi) # queue) matching_blocks =
          matching_blocks_loop a b queue matching_blocks"
      using f True by (simp add: matching_blocks_loop.simps)
    moreover note "2.IH"(2)[OF f[symmetric] refl] 
    ultimately show ?thesis using True by (simp add: region_len_a_def region_len_b_def)
  next
    case False
    define q' where "q' = (if i + k < ahi \<and> j + k < bhi then [(i + k, ahi, j + k, bhi)] else [])
                 @ (if alo < i \<and> blo < j then [(alo, i, blo, j)] else []) @ queue"
    note bd = find_longest_match_bounds[OF f False]
    have step: "matching_blocks_loop a b ((alo, ahi, blo, bhi) # queue) matching_blocks =
          matching_blocks_loop a b q' (matching_blocks @ [(i, j, k)])"
      using f False by (simp add: matching_blocks_loop.simps q'_def)
    have ih: "sum_list (map block_size (matching_blocks_loop a b q' (matching_blocks @ [(i, j, k)])))
     \<le> sum_list (map block_size (matching_blocks @ [(i, j, k)])) + sum_list (map region_len_a q') \<and>
   sum_list (map block_size (matching_blocks_loop a b q' (matching_blocks @ [(i, j, k)])))
     \<le> sum_list (map block_size (matching_blocks @ [(i, j, k)])) + sum_list (map region_len_b q')"
      using "2.IH"(1)[OF f[symmetric] refl False] unfolding q'_def by simp
    have ra: "sum_list (map region_len_a
                 (if i + k < ahi \<and> j + k < bhi then [(i + k, ahi, j + k, bhi)] else []))
              \<le> ahi - (i + k)"
      and la: "sum_list (map region_len_a (if alo < i \<and> blo < j then [(alo, i, blo, j)] else []))
              \<le> i - alo"
      and rb: "sum_list (map region_len_b
                 (if i + k < ahi \<and> j + k < bhi then [(i + k, ahi, j + k, bhi)] else []))
              \<le> bhi - (j + k)"
      and lb: "sum_list (map region_len_b (if alo < i \<and> blo < j then [(alo, i, blo, j)] else []))
              \<le> j - blo"
      by (simp_all add: region_len_a_def region_len_b_def)
    have sa: "sum_list (map region_len_a q') =
        sum_list (map region_len_a
                 (if i + k < ahi \<and> j + k < bhi then [(i + k, ahi, j + k, bhi)] else []))
        + sum_list (map region_len_a (if alo < i \<and> blo < j then [(alo, i, blo, j)] else []))
        + sum_list (map region_len_a queue)"
      and sb: "sum_list (map region_len_b q') =
        sum_list (map region_len_b
                 (if i + k < ahi \<and> j + k < bhi then [(i + k, ahi, j + k, bhi)] else []))
        + sum_list (map region_len_b (if alo < i \<and> blo < j then [(alo, i, blo, j)] else []))
        + sum_list (map region_len_b queue)"
      unfolding q'_def by (simp_all only: map_append sum_list_append add.assoc)
    have qa: "k + sum_list (map region_len_a q') \<le> (ahi - alo) + sum_list (map region_len_a queue)"
      unfolding sa using ra la bd by linarith
    have qb: "k + sum_list (map region_len_b q') \<le> (bhi - blo) + sum_list (map region_len_b queue)"
      unfolding sb using rb lb bd by linarith
    have bs: "sum_list (map block_size (matching_blocks @ [(i, j, k)])) =
              sum_list (map block_size matching_blocks) + k"
      by (simp add: block_size_def)
    have ha: "sum_list (map region_len_a ((alo, ahi, blo, bhi) # queue)) =
               (ahi - alo) + sum_list (map region_len_a queue)"
      and hb: "sum_list (map region_len_b ((alo, ahi, blo, bhi) # queue)) =
               (bhi - blo) + sum_list (map region_len_b queue)"
      by (simp_all add: region_len_a_def region_len_b_def)
    show ?thesis unfolding step ha hb using ih qa qb bs by linarith
  qed
qed

lemma matches_le:
  "sum_list (map block_size (get_matching_blocks a b)) \<le> length a"
  "sum_list (map block_size (get_matching_blocks a b)) \<le> length b"
  using matching_blocks_loop_sum[of a b "[(0, length a, 0, length b)]" "[]"]
  by (simp_all add: get_matching_blocks_def region_len_a_def region_len_b_def)

lemma fl_of_nat_pos: "0 < n \<Longrightarrow> 1 \<le> fl (of_nat n)"
proof -
  assume "0 < n"
  then have "(1::rat) \<le> of_nat n" by simp
  then have "fl 1 \<le> fl (of_nat n)" by (intro fl_mono) simp_all
  moreover have "fl 1 = 1" using fl_small_int[of 1] by simp
  ultimately show ?thesis by simp
qed

lemma calculate_ratio_bounds:
  assumes "2 * m \<le> n"
  shows "0 \<le> calculate_ratio m n" "calculate_ratio m n \<le> 1"
proof -
  have one: "fl 1 = 1" using fl_small_int[of 1] by simp
  show "0 \<le> calculate_ratio m n"
    by (auto simp: calculate_ratio_def fdiv_def fmul_def intro!: fl_nonneg divide_nonneg_nonneg)
  show "calculate_ratio m n \<le> 1"
  proof (cases "n = 0")
    case True
    then show ?thesis by (simp add: calculate_ratio_def)
  next
    case False
    have num: "fmul 2 (fl (of_nat m)) = fl (of_nat (2 * m))"
    proof -
      have "fmul 2 (fl (of_nat m)) = 2 * fl (fl (of_nat m))"
        unfolding fmul_def by (rule fl_double) (simp add: fl_nonneg)
      also have "\<dots> = 2 * fl (of_nat m)" by (simp add: fl_idem)
      also have "\<dots> = fl (2 * of_nat m)" by (rule fl_double[symmetric]) simp
      finally show ?thesis by simp
    qed
    have le: "fl (of_nat (2 * m)) \<le> fl (of_nat n)"
      using assms by (intro fl_mono) simp_all
    have pos: "0 < fl (of_nat n)" using fl_of_nat_pos[of n] False by simp
    have "fl (of_nat (2 * m)) / fl (of_nat n) \<le> 1" using le pos by simp
    moreover have "0 \<le> fl (of_nat (2 * m)) / fl (of_nat n)"
      using pos by (intro divide_nonneg_nonneg fl_nonneg) simp_all
    ultimately have "fl (fl (of_nat (2 * m)) / fl (of_nat n)) \<le> fl 1"
      by (intro fl_mono)
    then show ?thesis using False by (simp add: calculate_ratio_def fdiv_def num one)
  qed
qed

lemma ratio_bounds: "0 \<le> ratio a b" "ratio a b \<le> 1"
proof -
  have "2 * sum_list (map block_size (get_matching_blocks a b)) \<le> length a + length b"
    using matches_le[of a b] by simp
  then show "0 \<le> ratio a b" "ratio a b \<le> 1"
    unfolding ratio_def by (rule calculate_ratio_bounds)+
qed

lemmas ratio_eval =
  ratio_def calculate_ratio_def get_matching_blocks_def matching_blocks_loop.simps
  find_longest_match_def b2j_def popular_def extend_left.simps extend_right.simps
  block_size_def Let_def upt_rec

end
